theory Spec2Isabelle
  imports Main "HOL-Library.Multiset"
begin

section \<open>Errors\<close>

text \<open>
  Go byte slices and Go strings are both sequences of bytes; \<^typ>\<open>char\<close> is a byte, so
  \<^typ>\<open>string\<close> stands for \<^verbatim>\<open>[]byte\<close> and for \<^verbatim>\<open>string\<close>, and the conversion
  \<^verbatim>\<open>string(cmd)\<close> is the identity.

  The error values that travel through the queue and the mediator:
  \<^item> \<open>ErrDeadlineExceeded\<close>: the sentinel of package \<^verbatim>\<open>queue\<close>;
  \<^item> \<open>raft_NotLeaderError addr id\<close>: \<^verbatim>\<open>*raft.NotLeaderError\<close> of the raft worker;
  \<^item> \<open>errors_New msg\<close>: a plain error (\<^verbatim>\<open>errors.New("boom")\<close> in the tests);
  \<^item> \<open>Trace e\<close>, \<open>Annotate e msg\<close>: the wrappers of \<^verbatim>\<open>github.com/juju/errors\<close>,
    which keep the cause of the error they wrap;
  \<^item> \<open>apiservererrors_NotLeaderError addr id\<close> and
    \<open>apiservererrors_DeadlineExceededError msg\<close>: the public errors of the API server.
  A Go \<^verbatim>\<open>error\<close> that may be nil is an \<open>error option\<close>.
\<close>

datatype error =
    ErrDeadlineExceeded
  | raft_NotLeaderError string string
  | errors_New string
  | Trace error
  | Annotate error string
  | apiservererrors_NotLeaderError string string
  | apiservererrors_DeadlineExceededError string

text \<open>\<^verbatim>\<open>errors.Cause\<close>: the wrappers hand back the cause of what they wrap, any other
  error is its own cause.\<close>

fun Cause :: "error \<Rightarrow> error" where
  "Cause (Trace e) = Cause e"
| "Cause (Annotate e m) = Cause e"
| "Cause e = e"

text \<open>The errors met on the way from an error down to its cause, the error itself first.\<close>

fun cause_chain :: "error \<Rightarrow> error list" where
  "cause_chain (Trace e) = Trace e # cause_chain e"
| "cause_chain (Annotate e m) = Annotate e m # cause_chain e"
| "cause_chain e = [e]"

text \<open>Modelled from the spec: the message formats of the two \<^verbatim>\<open>NotLeaderError\<close> types
  are declared outside the given sources; the spec only says that a leader redirect presents
  the address and the server ID. No statement below depends on this text.\<close>

definition NotLeaderError_message :: "string \<Rightarrow> string \<Rightarrow> string" where
  "NotLeaderError_message addr ident = ''not currently the leader, try '' @ addr @ '' '' @ ident"

text \<open>The method \<^verbatim>\<open>Error()\<close>. The sentinel's text is the one the tests match
  (\<^verbatim>\<open>TestEnqueueTimesout\<close>); a trace adds nothing to the message, an annotation
  prefixes it.\<close>

fun Error :: "error \<Rightarrow> string" where
  "Error ErrDeadlineExceeded = ''enqueueing deadline exceeded''"
| "Error (raft_NotLeaderError addr ident) = NotLeaderError_message addr ident"
| "Error (errors_New m) = m"
| "Error (Trace e) = Error e"
| "Error (Annotate e m) = m @ '': '' @ Error e"
| "Error (apiservererrors_NotLeaderError addr ident) = NotLeaderError_message addr ident"
| "Error (apiservererrors_DeadlineExceededError m) = m"

text \<open>Modelled from the spec: \<^verbatim>\<open>queue.IsDeadlineExceeded\<close> is declared in the queue
  package's error file, which is not among the given sources. The spec: the predicate "must
  inspect the cause chain, not just the top-level type", and is true iff the error is
  \<^verbatim>\<open>ErrDeadlineExceeded\<close> or its cause chain reaches it.\<close>

definition IsDeadlineExceeded :: "error \<Rightarrow> bool" where
  "IsDeadlineExceeded err = (Cause err = ErrDeadlineExceeded)"

text \<open>The type assertion \<^verbatim>\<open>x.(*raft.NotLeaderError)\<close>: the server address and the server
  ID of the asserted value, or \<open>None\<close> where the assertion panics.\<close>

fun assert_raft_NotLeaderError :: "error \<Rightarrow> (string \<times> string) option" where
  "assert_raft_NotLeaderError (raft_NotLeaderError addr ident) = Some (addr, ident)"
| "assert_raft_NotLeaderError e = None"

text \<open>Modelled from the spec: \<^verbatim>\<open>raft.IsNotLeaderError\<close> is declared in the raft worker,
  which is not among the given sources. The spec: the branch is taken when the "cause is
  \<^verbatim>\<open>NotLeader{addr,id}\<close>".\<close>

definition IsNotLeaderError :: "error \<Rightarrow> bool" where
  "IsNotLeaderError err = (case Cause err of raft_NotLeaderError addr ident \<Rightarrow> True | _ \<Rightarrow> False)"

text \<open>Modelled from the spec: the constructors of the public errors, declared in the API
  server's error package; each carries its arguments unchanged.\<close>

definition NewNotLeaderError :: "string \<Rightarrow> string \<Rightarrow> error" where
  "NewNotLeaderError addr ident = apiservererrors_NotLeaderError addr ident"

definition NewDeadlineExceededError :: "string \<Rightarrow> error" where
  "NewDeadlineExceededError msg = apiservererrors_DeadlineExceededError msg"

section \<open>The mediator\<close>

record Operation =
  Commands :: "string list"

text \<open>A call of \<^verbatim>\<open>Tracef\<close> on the logger: the format and its arguments.\<close>

datatype log_call = Tracef string "string list"

text \<open>
  \<^verbatim>\<open>raftMediator\<close> holds a \<^verbatim>\<open>Queue\<close>, an interface with the one method
  \<^verbatim>\<open>Enqueue(queue.Operation) error\<close>, and a \<^verbatim>\<open>Logger\<close>. The queue behind the interface
  has a state of its own, of type \<open>'q\<close>: \<open>Enqueue\<close> takes it and returns it updated, next
  to the error. Of the logger the mediator reads \<^verbatim>\<open>IsTraceEnabled()\<close>.
\<close>

record 'q raftMediator =
  Enqueue :: "Operation \<Rightarrow> 'q \<Rightarrow> error option \<times> 'q"
  IsTraceEnabled :: bool

text \<open>What a call acts on: the state of the queue and the calls received by the logger.\<close>

record 'q world =
  queue_state :: 'q
  logger_calls :: "log_call list"

datatype 'a outcome = Return 'a | Panic

text \<open>
  \<^verbatim>\<open>ApplyLease\<close>, with the predicate of its second \<^verbatim>\<open>case\<close> as a parameter. The
  \<^verbatim>\<open>switch\<close> takes the first case that holds; the unchecked type assertion on the cause
  panics when the cause is not a \<^verbatim>\<open>*raft.NotLeaderError\<close>.
\<close>

definition ApplyLease_with ::
  "(error \<Rightarrow> bool) \<Rightarrow> 'q raftMediator \<Rightarrow> string \<Rightarrow> 'q world \<Rightarrow> error option outcome \<times> 'q world" where
  "ApplyLease_with isNotLeader m cmd w =
    (let w1 = (if IsTraceEnabled m
               then w\<lparr>logger_calls := logger_calls w @ [Tracef ''Applying Lease with command %s'' [cmd]]\<rparr>
               else w);
         (err, q') = Enqueue m \<lparr>Commands = [cmd]\<rparr> (queue_state w1);
         w2 = w1\<lparr>queue_state := q'\<rparr>
     in case err of
          None \<Rightarrow> (Return None, w2)
        | Some e \<Rightarrow>
            if isNotLeader e then
              (case assert_raft_NotLeaderError (Cause e) of
                 None \<Rightarrow> (Panic, w2)
               | Some (addr, ident) \<Rightarrow>
                   (Return (Some (NewNotLeaderError addr ident)),
                    w2\<lparr>logger_calls := logger_calls w2 @
                          [Tracef ''Not currently the leader, go to %v %v'' [addr, ident]]\<rparr>))
            else if IsDeadlineExceeded e then
              (Return (Some (NewDeadlineExceededError (Error e))), w2)
            else (Return (Some (Trace e)), w2))"

definition ApplyLease :: "'q raftMediator \<Rightarrow> string \<Rightarrow> 'q world \<Rightarrow> error option outcome \<times> 'q world" where
  "ApplyLease = ApplyLease_with IsNotLeaderError"

text \<open>A queue that notes every operation it is handed before passing it to \<open>enq\<close>.\<close>

definition recording ::
  "(Operation \<Rightarrow> 'q \<Rightarrow> error option \<times> 'q) \<Rightarrow> Operation \<Rightarrow> Operation list \<times> 'q
     \<Rightarrow> error option \<times> (Operation list \<times> 'q)" where
  "recording enq op s = (case enq op (snd s) of (e, q') \<Rightarrow> (e, (fst s @ [op], q')))"

text \<open>A queue that answers every operation with the same reply.\<close>

definition scripted :: "error option \<Rightarrow> Operation \<Rightarrow> unit \<Rightarrow> error option \<times> unit" where
  "scripted e op u = (e, u)"

text \<open>
  The classification as the specification words it: nil stays nil; an error whose cause is
  a \<^verbatim>\<open>NotLeader\<close> becomes the public \<^verbatim>\<open>NotLeaderError\<close> with the cause's
  coordinates; else a deadline error becomes the public \<^verbatim>\<open>DeadlineExceededError\<close> with the
  error's message; else the error is returned traced.
\<close>

fun classified :: "error option \<Rightarrow> error option" where
  "classified None = None"
| "classified (Some e) =
     Some (case Cause e of
             raft_NotLeaderError addr ident \<Rightarrow> apiservererrors_NotLeaderError addr ident
           | _ \<Rightarrow> if IsDeadlineExceeded e then apiservererrors_DeadlineExceededError (Error e)
                  else Trace e)"

text \<open>The three classes of error the caller tells apart.\<close>

datatype error_class = NotLeader_class | DeadlineExceeded_class | Other_class

text \<open>The class of a reply of the queue, by the mediator's tests in their order.\<close>

definition reply_class :: "error \<Rightarrow> error_class" where
  "reply_class e =
     (if IsNotLeaderError e then NotLeader_class
      else if IsDeadlineExceeded e then DeadlineExceeded_class
      else Other_class)"

text \<open>The class of an error the mediator returns, by its type.\<close>

fun public_class :: "error \<Rightarrow> error_class" where
  "public_class (apiservererrors_NotLeaderError addr ident) = NotLeader_class"
| "public_class (apiservererrors_DeadlineExceededError m) = DeadlineExceeded_class"
| "public_class e = Other_class"

section \<open>The blocking queue\<close>

text \<open>
  Modelled from the spec: the queue itself (\<^verbatim>\<open>BlockingOpQueue\<close>, its \<^verbatim>\<open>Enqueue\<close>,
  \<^verbatim>\<open>Queue\<close> and \<^verbatim>\<open>Error\<close>) is not among the given sources; its tests are. The spec
  gives its algorithm: \<^verbatim>\<open>Enqueue\<close> starts a timer for \<^verbatim>\<open>EnqueueTimeout\<close>, races the
  send of the operation on the unbuffered channel \<^verbatim>\<open>in\<close> against the timer in one select,
  returns \<^verbatim>\<open>ErrDeadlineExceeded\<close> if the timer wins, and otherwise waits, without a
  timeout, for one value on the unbuffered channel \<^verbatim>\<open>out\<close> and returns it.

  The producers and the consumer run concurrently; the model is the interleaving of their
  steps. A call of \<^verbatim>\<open>Enqueue\<close> is at one of three places: in the select, with its
  operation and the instant at which its timer fires; waiting for the reply; or returned,
  with the error it returned. Calls are numbered in the order in which they start.
\<close>

datatype call =
    AtSelect Operation nat
  | AwaitingReply Operation
  | Returned Operation "error option"

fun op_of :: "call \<Rightarrow> Operation" where
  "op_of (AtSelect op d) = op"
| "op_of (AwaitingReply op) = op"
| "op_of (Returned op r) = op"

text \<open>
  The consumer, as the tests write it (\<^verbatim>\<open>consumeNUntilErr\<close> and the consumer of
  \<^verbatim>\<open>TestMultipleEnqueueWithErrors\<close>): it receives an operation from \<^verbatim>\<open>Queue()\<close>,
  sends one reply on \<^verbatim>\<open>Error()\<close>, and comes back to the receive, at once, after a sleep,
  or never. \<open>Away\<close>: not at the receive (not started, asleep, stopped). \<open>Receiving\<close>:
  blocked in the receive. \<open>Holding p\<close>: it has received the operation of call \<open>p\<close> and
  has not yet delivered its reply.
\<close>

datatype consumer = Away | Receiving | Holding nat

text \<open>
  The state: the reading of the injected clock, the calls, the consumer, and two logs that
  the code does not keep but the properties speak of: the operations the consumer has
  received from \<^verbatim>\<open>Queue()\<close>, each with the number of its call, and the replies it has
  sent on \<^verbatim>\<open>Error()\<close>, both in order.
\<close>

record BlockingOpQueue =
  now :: nat
  calls :: "call list"
  consumer :: consumer
  received :: "(nat \<times> Operation) list"
  replies :: "error option list"

definition NewBlockingOpQueue :: "nat \<Rightarrow> BlockingOpQueue" where
  "NewBlockingOpQueue start =
     \<lparr>now = start, calls = [], consumer = Away, received = [], replies = []\<rparr>"

text \<open>
  The steps of the interleaving:
  \<^item> \<open>Call op\<close>: a producer enters \<^verbatim>\<open>Enqueue(op)\<close> and starts its timer;
  \<^item> \<open>Handoff p\<close>: the send of call \<open>p\<close> meets the consumer's receive (a rendezvous: the
    channel has no buffer), whether or not the timer has fired as well;
  \<^item> \<open>Timeout p\<close>: the select of call \<open>p\<close> takes the timer, which has fired; the call
    returns \<^verbatim>\<open>ErrDeadlineExceeded\<close>;
  \<^item> \<open>Reply p e\<close>: the consumer's send of \<open>e\<close> on \<^verbatim>\<open>Error()\<close> meets the receive of
    call \<open>p\<close>, which returns \<open>e\<close>;
  \<^item> \<open>Resume\<close>: the consumer arrives at the receive;
  \<^item> \<open>Advance d\<close>: the clock advances by \<open>d\<close>.
  A step that is not possible in a state yields \<open>None\<close>. \<open>timeout\<close> is
  \<^verbatim>\<open>EnqueueTimeout\<close>, a constant of the queue package.
\<close>

datatype event =
    Call Operation
  | Handoff nat
  | Timeout nat
  | Reply nat "error option"
  | Resume
  | Advance nat

fun step :: "nat \<Rightarrow> BlockingOpQueue \<Rightarrow> event \<Rightarrow> BlockingOpQueue option" where
  "step timeout q (Call op) =
     Some (q\<lparr>calls := calls q @ [AtSelect op (now q + timeout)]\<rparr>)"
| "step timeout q (Handoff p) =
     (if p < length (calls q) \<and> consumer q = Receiving then
        (case calls q ! p of
           AtSelect op d \<Rightarrow>
             Some (q\<lparr>calls := (calls q)[p := AwaitingReply op], consumer := Holding p,
                     received := received q @ [(p, op)]\<rparr>)
         | _ \<Rightarrow> None)
      else None)"
| "step timeout q (Timeout p) =
     (if p < length (calls q) then
        (case calls q ! p of
           AtSelect op d \<Rightarrow>
             if d \<le> now q
             then Some (q\<lparr>calls := (calls q)[p := Returned op (Some ErrDeadlineExceeded)]\<rparr>)
             else None
         | _ \<Rightarrow> None)
      else None)"
| "step timeout q (Reply p e) =
     (if p < length (calls q) then
        (case consumer q of
           Holding h \<Rightarrow>
             (case calls q ! p of
                AwaitingReply op \<Rightarrow>
                  Some (q\<lparr>calls := (calls q)[p := Returned op e], consumer := Away,
                          replies := replies q @ [e]\<rparr>)
              | _ \<Rightarrow> None)
         | _ \<Rightarrow> None)
      else None)"
| "step timeout q Resume =
     (if consumer q = Away then Some (q\<lparr>consumer := Receiving\<rparr>) else None)"
| "step timeout q (Advance d) = Some (q\<lparr>now := now q + d\<rparr>)"

fun run :: "nat \<Rightarrow> BlockingOpQueue \<Rightarrow> event list \<Rightarrow> BlockingOpQueue option" where
  "run timeout q [] = Some q"
| "run timeout q (ev # evs) =
     (case step timeout q ev of None \<Rightarrow> None | Some q' \<Rightarrow> run timeout q' evs)"

text \<open>The calls whose operation the consumer has received.\<close>

definition observed :: "BlockingOpQueue \<Rightarrow> nat set" where
  "observed q = fst ` set (received q)"

text \<open>
  What holds of every state the queue can reach, in five parts:
  no call is handed off twice, and what the consumer received is the operation of a call
  that has left its select; a call waits for a reply only while the consumer holds its
  operation; a call that returned anything but the sentinel was handed off; the consumer
  holds the operation it received last, and has sent one reply for each one before; and
  the \<open>k\<close>-th reply is what the call of the \<open>k\<close>-th operation returned.
\<close>

definition handed_off_once :: "BlockingOpQueue \<Rightarrow> bool" where
  "handed_off_once q \<longleftrightarrow> distinct (map fst (received q)) \<and>
     (\<forall>x \<in> set (received q). fst x < length (calls q) \<and> op_of (calls q ! fst x) = snd x
        \<and> (\<forall>op d. calls q ! fst x \<noteq> AtSelect op d))"

definition one_awaiting :: "BlockingOpQueue \<Rightarrow> bool" where
  "one_awaiting q \<longleftrightarrow>
     (\<forall>p < length (calls q). \<forall>op. calls q ! p = AwaitingReply op \<longrightarrow> consumer q = Holding p)"

definition replied_observed :: "BlockingOpQueue \<Rightarrow> bool" where
  "replied_observed q \<longleftrightarrow>
     (\<forall>p < length (calls q). \<forall>op r. calls q ! p = Returned op r \<longrightarrow>
        r \<noteq> Some ErrDeadlineExceeded \<longrightarrow> p \<in> observed q)"

definition holding_last :: "BlockingOpQueue \<Rightarrow> bool" where
  "holding_last q \<longleftrightarrow>
     (\<forall>h. consumer q = Holding h \<longrightarrow> h < length (calls q) \<and> received q \<noteq> []
        \<and> calls q ! h = AwaitingReply (snd (last (received q))) \<and> fst (last (received q)) = h
        \<and> length (received q) = Suc (length (replies q))) \<and>
     ((\<forall>h. consumer q \<noteq> Holding h) \<longrightarrow> length (received q) = length (replies q))"

definition replies_delivered :: "BlockingOpQueue \<Rightarrow> bool" where
  "replies_delivered q \<longleftrightarrow>
     (\<forall>k < length (replies q). k < length (received q) \<and>
        calls q ! fst (received q ! k) = Returned (snd (received q ! k)) (replies q ! k))"

definition well_formed :: "BlockingOpQueue \<Rightarrow> bool" where
  "well_formed q \<longleftrightarrow> handed_off_once q \<and> one_awaiting q \<and> replied_observed q
     \<and> holding_last q \<and> replies_delivered q"

text \<open>Call \<open>p\<close> returned the sentinel and the consumer has not seen its operation.\<close>

definition timed_out_unobserved :: "BlockingOpQueue \<Rightarrow> nat \<Rightarrow> bool" where
  "timed_out_unobserved q p \<longleftrightarrow> p < length (calls q) \<and> p \<notin> observed q \<and>
     (\<exists>op. calls q ! p = Returned op (Some ErrDeadlineExceeded))"

section \<open>Properties of the error predicates\<close>

lemma cause_chain_not_Nil: "cause_chain e \<noteq> []"
  by (induction e rule: cause_chain.induct) simp_all

lemma Cause_last_cause_chain: "Cause e = last (cause_chain e)"
  by (induction e rule: cause_chain.induct) (simp_all add: cause_chain_not_Nil)

lemma sentinel_in_chain_is_cause:
  "ErrDeadlineExceeded \<in> set (cause_chain e) \<longleftrightarrow> Cause e = ErrDeadlineExceeded"
  by (induction e rule: cause_chain.induct) auto

lemma IsNotLeaderError_assert:
  "IsNotLeaderError e \<longleftrightarrow> assert_raft_NotLeaderError (Cause e) \<noteq> None"
  by (cases "Cause e") (simp_all add: IsNotLeaderError_def)

lemma IsNotLeaderError_not_deadline:
  "IsNotLeaderError e \<Longrightarrow> \<not> IsDeadlineExceeded e"
  by (cases "Cause e") (simp_all add: IsNotLeaderError_def IsDeadlineExceeded_def)

section \<open>Properties of the mediator\<close>

lemma ApplyLease_with_queue_state:
  "queue_state (snd (ApplyLease_with p m cmd w)) = snd (Enqueue m \<lparr>Commands = [cmd]\<rparr> (queue_state w))"
  by (simp add: ApplyLease_with_def Let_def split: prod.splits option.splits)

lemma ApplyLease_result:
  "fst (ApplyLease m cmd w) = Return (classified (fst (Enqueue m \<lparr>Commands = [cmd]\<rparr> (queue_state w))))"
proof -
  obtain r q' where enq: "Enqueue m \<lparr>Commands = [cmd]\<rparr> (queue_state w) = (r, q')"
    by (cases "Enqueue m \<lparr>Commands = [cmd]\<rparr> (queue_state w)")
  show ?thesis
  proof (cases r)
    case None
    with enq show ?thesis
      by (simp add: ApplyLease_def ApplyLease_with_def Let_def)
  next
    case (Some e)
    with enq show ?thesis
      by (cases "Cause e")
        (simp_all add: ApplyLease_def ApplyLease_with_def Let_def IsNotLeaderError_def
          NewNotLeaderError_def NewDeadlineExceededError_def)
  qed
qed

lemma classified_None: "classified r = None \<longleftrightarrow> r = None"
  by (cases r) simp_all

lemma classified_class: "map_option public_class (classified r) = map_option reply_class r"
proof (cases r)
  case None
  then show ?thesis by simp
next
  case (Some e)
  then show ?thesis
    by (cases "Cause e") (simp_all add: reply_class_def IsNotLeaderError_def IsDeadlineExceeded_def)
qed

text \<open>
  C1. Whatever \<^verbatim>\<open>Enqueue\<close> returns for the wrapped operation, \<^verbatim>\<open>ApplyLease\<close> returns
  its classification, in this order: nil for nil; the public \<^verbatim>\<open>NotLeaderError\<close> with
  the cause's address and ID when the cause is a \<^verbatim>\<open>NotLeader\<close>; else the public
  \<^verbatim>\<open>DeadlineExceededError\<close> with the error's message when \<^verbatim>\<open>IsDeadlineExceeded\<close>
  holds; else the error with a trace. The result is nil only for a nil reply, and its class
  is the class of the reply.
\<close>

theorem ApplyLease_classification:
  "fst (ApplyLease m cmd w) = Return (classified (fst (Enqueue m \<lparr>Commands = [cmd]\<rparr> (queue_state w))))
   \<and> (classified r = None \<longleftrightarrow> r = None)
   \<and> map_option public_class (classified r) = map_option reply_class r"
  using ApplyLease_result [of m cmd w] classified_None [of r] classified_class [of r]
  by blast

text \<open>
  C4. When the reply to the operation has a \<^verbatim>\<open>NotLeader\<close> with address \<open>a\<close> and ID
  \<open>i\<close> as its cause (the reply itself being one such error), \<^verbatim>\<open>ApplyLease\<close> returns the
  public \<^verbatim>\<open>NotLeaderError\<close> with exactly \<open>a\<close> and \<open>i\<close>.
\<close>

theorem ApplyLease_NotLeader_roundtrip:
  assumes "fst (Enqueue m \<lparr>Commands = [cmd]\<rparr> (queue_state w)) = Some err"
    and "Cause err = raft_NotLeaderError a i"
  shows "fst (ApplyLease m cmd w) = Return (Some (apiservererrors_NotLeaderError a i))"
  using assms by (simp add: ApplyLease_result)

theorem ApplyLease_NotLeader_roundtrip_witness:
  "fst (ApplyLease \<lparr>Enqueue = scripted (Some (raft_NotLeaderError ''10.0.0.2:17070'' ''3'')),
                     IsTraceEnabled = True\<rparr>
         ''claim'' \<lparr>queue_state = (), logger_calls = []\<rparr>)
   = Return (Some (apiservererrors_NotLeaderError ''10.0.0.2:17070'' ''3''))"
  by (rule ApplyLease_NotLeader_roundtrip [where err = "raft_NotLeaderError ''10.0.0.2:17070'' ''3''"])
    (simp_all add: scripted_def)

text \<open>
  C9. Whatever the queue does with it, \<^verbatim>\<open>ApplyLease(cmd)\<close> hands the queue exactly one
  operation, whose commands are the one-element sequence holding \<open>cmd\<close> unchanged; the
  empty command is no exception.
\<close>

theorem ApplyLease_enqueues_one_command:
  "fst (queue_state (snd (ApplyLease (m\<lparr>Enqueue := recording enq\<rparr>) cmd w)))
     = fst (queue_state w) @ [\<lparr>Commands = [cmd]\<rparr>]
   \<and> fst (queue_state (snd (ApplyLease (m\<lparr>Enqueue := recording enq\<rparr>) [] w)))
     = fst (queue_state w) @ [\<lparr>Commands = [[]]\<rparr>]"
  by (simp add: ApplyLease_def ApplyLease_with_queue_state recording_def split: prod.splits)

text \<open>
  C10. If the predicate of the second case holds exactly of the errors whose cause is a
  \<^verbatim>\<open>*raft.NotLeaderError\<close>, then whenever it holds of a reply the type assertion on the
  cause succeeds, and \<^verbatim>\<open>ApplyLease\<close> does not panic.
\<close>

theorem ApplyLease_type_assertion_safe:
  assumes "\<forall>e. isNotLeader e \<longleftrightarrow> assert_raft_NotLeaderError (Cause e) \<noteq> None"
  shows "(isNotLeader err \<longrightarrow> (\<exists>a i. Cause err = raft_NotLeaderError a i))
         \<and> fst (ApplyLease_with isNotLeader m cmd w) \<noteq> Panic"
proof
  show "isNotLeader err \<longrightarrow> (\<exists>a i. Cause err = raft_NotLeaderError a i)"
    using assms by (cases "Cause err") simp_all
next
  obtain r q' where enq: "Enqueue m \<lparr>Commands = [cmd]\<rparr> (queue_state w) = (r, q')"
    by (cases "Enqueue m \<lparr>Commands = [cmd]\<rparr> (queue_state w)")
  show "fst (ApplyLease_with isNotLeader m cmd w) \<noteq> Panic"
  proof (cases r)
    case None
    with enq show ?thesis by (simp add: ApplyLease_with_def Let_def)
  next
    case (Some e)
    show ?thesis
    proof (cases "isNotLeader e")
      case True
      with assms obtain a i where "assert_raft_NotLeaderError (Cause e) = Some (a, i)"
        by fastforce
      with enq Some True show ?thesis by (simp add: ApplyLease_with_def Let_def)
    next
      case False
      with enq Some show ?thesis by (simp add: ApplyLease_with_def Let_def)
    qed
  qed
qed

theorem ApplyLease_type_assertion_safe_witness:
  "(\<forall>e. IsNotLeaderError e \<longleftrightarrow> assert_raft_NotLeaderError (Cause e) \<noteq> None)
   \<and> IsNotLeaderError (Trace (raft_NotLeaderError ''10.0.0.2:17070'' ''3''))
   \<and> (\<exists>a i. Cause (Trace (raft_NotLeaderError ''10.0.0.2:17070'' ''3'')) = raft_NotLeaderError a i)
   \<and> fst (ApplyLease_with IsNotLeaderError
            \<lparr>Enqueue = scripted (Some (Trace (raft_NotLeaderError ''10.0.0.2:17070'' ''3''))),
             IsTraceEnabled = False\<rparr>
            ''claim'' \<lparr>queue_state = (), logger_calls = []\<rparr>) \<noteq> Panic"
proof -
  have h: "\<forall>e. IsNotLeaderError e \<longleftrightarrow> assert_raft_NotLeaderError (Cause e) \<noteq> None"
    by (simp add: IsNotLeaderError_assert)
  have nl: "IsNotLeaderError (Trace (raft_NotLeaderError ''10.0.0.2:17070'' ''3''))"
    by (simp add: IsNotLeaderError_def)
  from ApplyLease_type_assertion_safe [OF h] h nl show ?thesis by blast
qed

text \<open>Without that hypothesis the assertion can fail: the panic is a branch of the code.\<close>

lemma ApplyLease_with_can_panic:
  "fst (ApplyLease_with (\<lambda>e. True) \<lparr>Enqueue = scripted (Some (errors_New ''boom'')), IsTraceEnabled = False\<rparr>
          ''claim'' \<lparr>queue_state = (), logger_calls = []\<rparr>) = Panic"
  by (simp add: ApplyLease_with_def scripted_def)

text \<open>
  C6. \<^verbatim>\<open>IsDeadlineExceeded(err)\<close> holds exactly when \<open>err\<close> is the sentinel or the sentinel
  lies on its cause chain; it holds of the sentinel itself, and fails of every error whose
  cause chain does not reach the sentinel.
\<close>

theorem IsDeadlineExceeded_iff_cause_chain:
  "(IsDeadlineExceeded err \<longleftrightarrow> err = ErrDeadlineExceeded \<or> ErrDeadlineExceeded \<in> set (cause_chain err))
   \<and> IsDeadlineExceeded ErrDeadlineExceeded
   \<and> (ErrDeadlineExceeded \<notin> set (cause_chain err) \<longrightarrow> \<not> IsDeadlineExceeded err)"
  by (auto simp: IsDeadlineExceeded_def sentinel_in_chain_is_cause)

theorem IsDeadlineExceeded_iff_cause_chain_witness:
  "ErrDeadlineExceeded \<notin> set (cause_chain (errors_New ''bad''))
   \<and> \<not> IsDeadlineExceeded (errors_New ''bad'')
   \<and> IsDeadlineExceeded (Annotate (Trace ErrDeadlineExceeded) ''apply'')"
  using IsDeadlineExceeded_iff_cause_chain [of "errors_New ''bad''"]
    IsDeadlineExceeded_iff_cause_chain [of "Annotate (Trace ErrDeadlineExceeded) ''apply''"]
  by simp

section \<open>Properties of the queue\<close>


lemma step_cases:
  assumes "step t q ev = Some q'"
  obtains
    (Call) op where "ev = Call op"
      and "q' = q\<lparr>calls := calls q @ [AtSelect op (now q + t)]\<rparr>"
  | (Handoff) p op d where "ev = Handoff p" and "p < length (calls q)"
      and "consumer q = Receiving" and "calls q ! p = AtSelect op d"
      and "q' = q\<lparr>calls := (calls q)[p := AwaitingReply op], consumer := Holding p,
                    received := received q @ [(p, op)]\<rparr>"
  | (Timeout) p op d where "ev = Timeout p" and "p < length (calls q)"
      and "calls q ! p = AtSelect op d" and "d \<le> now q"
      and "q' = q\<lparr>calls := (calls q)[p := Returned op (Some ErrDeadlineExceeded)]\<rparr>"
  | (Reply) p e h op where "ev = Reply p e" and "p < length (calls q)"
      and "consumer q = Holding h" and "calls q ! p = AwaitingReply op"
      and "q' = q\<lparr>calls := (calls q)[p := Returned op e], consumer := Away,
                    replies := replies q @ [e]\<rparr>"
  | (Resume) "ev = Resume" and "consumer q = Away" and "q' = q\<lparr>consumer := Receiving\<rparr>"
  | (Advance) d where "ev = Advance d" and "q' = q\<lparr>now := now q + d\<rparr>"
  using assms
  by (cases ev) (auto split: if_splits call.splits consumer.splits)

lemma run_append:
  "run t q (evs @ evs') = (case run t q evs of None \<Rightarrow> None | Some q' \<Rightarrow> run t q' evs')"
  by (induction evs arbitrary: q) (simp_all split: option.splits)

lemmas well_formed_defs = well_formed_def handed_off_once_def one_awaiting_def
  replied_observed_def holding_last_def replies_delivered_def

lemma well_formed_New: "well_formed (NewBlockingOpQueue start)"
  by (simp add: well_formed_defs NewBlockingOpQueue_def)

lemma AtSelect_unobserved:
  assumes "handed_off_once q" and "calls q ! p = AtSelect op d"
  shows "p \<notin> observed q"
  using assms by (auto simp: handed_off_once_def observed_def)

lemma received_nth_observed:
  "k < length (received q) \<Longrightarrow> fst (received q ! k) \<in> observed q"
  by (simp add: observed_def)

lemma well_formed_Call:
  assumes "well_formed q"
  shows "well_formed (q\<lparr>calls := calls q @ [AtSelect op d]\<rparr>)"
proof -
  let ?q = "q\<lparr>calls := calls q @ [AtSelect op d]\<rparr>"
  have "handed_off_once ?q"
    using assms by (auto simp: well_formed_def handed_off_once_def nth_append)
  moreover have "one_awaiting ?q"
    using assms by (auto simp: well_formed_def one_awaiting_def nth_append)
  moreover have "replied_observed ?q"
    using assms by (auto simp: well_formed_def replied_observed_def observed_def nth_append)
  moreover have "holding_last ?q"
    using assms by (auto simp: well_formed_def holding_last_def nth_append)
  moreover have "replies_delivered ?q"
    using assms
    by (auto simp: well_formed_def replies_delivered_def handed_off_once_def nth_append)
  ultimately show ?thesis by (simp add: well_formed_def)
qed

lemma well_formed_Handoff:
  assumes wf: "well_formed q" and p: "p < length (calls q)" and c: "consumer q = Receiving"
    and s: "calls q ! p = AtSelect op d"
  shows "well_formed (q\<lparr>calls := (calls q)[p := AwaitingReply op], consumer := Holding p,
                    received := received q @ [(p, op)]\<rparr>)"
proof -
  let ?q = "q\<lparr>calls := (calls q)[p := AwaitingReply op], consumer := Holding p,
                    received := received q @ [(p, op)]\<rparr>"
  from wf have h: "handed_off_once q" by (simp add: well_formed_def)
  have unobs: "p \<notin> observed q" using h s by (rule AtSelect_unobserved)
  then have neq: "\<And>x. x \<in> set (received q) \<Longrightarrow> fst x \<noteq> p"
    by (auto simp: observed_def)
  have len: "length (received q) = length (replies q)"
    using wf c by (simp add: well_formed_def holding_last_def)
  have same: "\<And>x c. x \<in> set (received q) \<Longrightarrow> (calls q)[p := c] ! fst x = calls q ! fst x"
    using neq by (metis nth_list_update_neq)
  have "handed_off_once ?q"
    using h p unobs by (simp add: handed_off_once_def observed_def same)
  moreover have "one_awaiting ?q"
    using wf c p by (auto simp: well_formed_def one_awaiting_def nth_list_update)
  moreover have "replied_observed ?q"
    using wf p by (auto simp: well_formed_def replied_observed_def observed_def nth_list_update)
  moreover have "holding_last ?q"
    using p len by (simp add: holding_last_def)
  moreover have "replies_delivered ?q"
    unfolding replies_delivered_def
  proof (intro allI impI)
    fix k assume k: "k < length (replies ?q)"
    then have k': "k < length (received q)" using len by simp
    then have "fst (received q ! k) \<noteq> p" using neq by simp
    moreover have "calls q ! fst (received q ! k) = Returned (snd (received q ! k)) (replies q ! k)"
      using wf k by (simp add: well_formed_def replies_delivered_def)
    ultimately show "k < length (received ?q) \<and>
        calls ?q ! fst (received ?q ! k) = Returned (snd (received ?q ! k)) (replies ?q ! k)"
      using k' by (simp add: nth_append)
  qed
  ultimately show ?thesis by (simp add: well_formed_def)
qed

lemma well_formed_Timeout:
  assumes wf: "well_formed q" and p: "p < length (calls q)" and s: "calls q ! p = AtSelect op d"
  shows "well_formed (q\<lparr>calls := (calls q)[p := Returned op (Some ErrDeadlineExceeded)]\<rparr>)"
proof -
  let ?q = "q\<lparr>calls := (calls q)[p := Returned op (Some ErrDeadlineExceeded)]\<rparr>"
  from wf have h: "handed_off_once q" by (simp add: well_formed_def)
  have unobs: "p \<notin> observed q" using h s by (rule AtSelect_unobserved)
  then have neq: "\<And>x. x \<in> set (received q) \<Longrightarrow> fst x \<noteq> p"
    by (auto simp: observed_def)
  have same: "\<And>x c. x \<in> set (received q) \<Longrightarrow> (calls q)[p := c] ! fst x = calls q ! fst x"
    using neq by (metis nth_list_update_neq)
  have "handed_off_once ?q"
    using h by (simp add: handed_off_once_def same)
  moreover have "one_awaiting ?q"
    using wf p by (auto simp: well_formed_def one_awaiting_def nth_list_update)
  moreover have "replied_observed ?q"
    using wf p by (auto simp: well_formed_def replied_observed_def observed_def nth_list_update)
  moreover have "holding_last ?q"
    using wf s p by (auto simp: well_formed_def holding_last_def nth_list_update)
  moreover have "replies_delivered ?q"
    using wf same by (simp add: well_formed_def replies_delivered_def)
  ultimately show ?thesis by (simp add: well_formed_def)
qed

lemma well_formed_Reply:
  assumes wf: "well_formed q" and p: "p < length (calls q)" and c: "consumer q = Holding h"
    and s: "calls q ! p = AwaitingReply op"
  shows "h = p \<and> well_formed (q\<lparr>calls := (calls q)[p := Returned op e], consumer := Away,
                    replies := replies q @ [e]\<rparr>)"
proof
  let ?q = "q\<lparr>calls := (calls q)[p := Returned op e], consumer := Away,
                    replies := replies q @ [e]\<rparr>"
  show hp: "h = p"
    using wf p c s by (auto simp: well_formed_def one_awaiting_def)
  from wf c hp have ne: "received q \<noteq> []" and lastp: "fst (last (received q)) = p"
    and op: "op = snd (last (received q))"
    and len: "length (received q) = Suc (length (replies q))"
    using s by (auto simp: well_formed_def holding_last_def)
  from wf have ho: "handed_off_once q" by (simp add: well_formed_def)
  have last_nth: "last (received q) = received q ! length (replies q)"
    using ne len by (simp add: last_conv_nth)
  have old: "fst (received q ! k) \<noteq> p" if "k < length (replies q)" for k
  proof
    assume "fst (received q ! k) = p"
    then have "map fst (received q) ! k = map fst (received q) ! length (replies q)"
      using that len lastp last_nth by simp
    moreover have "distinct (map fst (received q))" using ho by (simp add: handed_off_once_def)
    moreover have "k < length (map fst (received q))"
      and "length (replies q) < length (map fst (received q))"
      using that len by simp_all
    ultimately have "k = length (replies q)"
      by (simp only: nth_eq_iff_index_eq)
    with that show False by simp
  qed
  have "handed_off_once ?q"
    using ho s p by (auto simp: handed_off_once_def nth_list_update)
  moreover have "one_awaiting ?q"
    using wf c hp p by (auto simp: well_formed_def one_awaiting_def nth_list_update)
  moreover have "replied_observed ?q"
  proof -
    have "p \<in> observed q"
      using ne lastp by (metis observed_def image_eqI last_in_set)
    then show ?thesis
      using wf p by (auto simp: well_formed_def replied_observed_def observed_def nth_list_update)
  qed
  moreover have "holding_last ?q"
    using len by (simp add: holding_last_def)
  moreover have "replies_delivered ?q"
    unfolding replies_delivered_def
  proof (intro allI impI)
    fix k assume "k < length (replies ?q)"
    then consider "k < length (replies q)" | "k = length (replies q)" by fastforce
    then show "k < length (received ?q) \<and>
        calls ?q ! fst (received ?q ! k) = Returned (snd (received ?q ! k)) (replies ?q ! k)"
    proof cases
      case 1
      moreover from 1 wf have "k < length (received q) \<and>
          calls q ! fst (received q ! k) = Returned (snd (received q ! k)) (replies q ! k)"
        by (simp add: well_formed_def replies_delivered_def)
      ultimately show ?thesis using old [of k] by (simp add: nth_append)
    next
      case 2
      then show ?thesis using len p lastp op last_nth by simp
    qed
  qed
  ultimately show "well_formed ?q" by (simp add: well_formed_def)
qed

lemma well_formed_Resume:
  assumes wf: "well_formed q" and c: "consumer q = Away"
  shows "well_formed (q\<lparr>consumer := Receiving\<rparr>)"
proof -
  let ?q = "q\<lparr>consumer := Receiving\<rparr>"
  have "handed_off_once ?q"
    using wf by (simp add: well_formed_def handed_off_once_def)
  moreover have "one_awaiting ?q"
    using wf c by (simp add: well_formed_def one_awaiting_def)
  moreover have "replied_observed ?q"
    using wf by (simp add: well_formed_def replied_observed_def observed_def)
  moreover have "holding_last ?q"
    using wf c by (simp add: well_formed_def holding_last_def)
  moreover have "replies_delivered ?q"
    using wf by (simp add: well_formed_def replies_delivered_def)
  ultimately show ?thesis by (simp add: well_formed_def)
qed

lemma well_formed_Advance:
  assumes wf: "well_formed q"
  shows "well_formed (q\<lparr>now := now q + d\<rparr>)"
proof -
  let ?q = "q\<lparr>now := now q + d\<rparr>"
  have "handed_off_once ?q"
    using wf by (simp add: well_formed_def handed_off_once_def)
  moreover have "one_awaiting ?q"
    using wf by (simp add: well_formed_def one_awaiting_def)
  moreover have "replied_observed ?q"
    using wf by (simp add: well_formed_def replied_observed_def observed_def)
  moreover have "holding_last ?q"
    using wf by (simp add: well_formed_def holding_last_def)
  moreover have "replies_delivered ?q"
    using wf by (simp add: well_formed_def replies_delivered_def)
  ultimately show ?thesis by (simp add: well_formed_def)
qed

lemma well_formed_step:
  assumes wf: "well_formed q" and st: "step t q ev = Some q'"
  shows "well_formed q'"
  using st
proof (cases rule: step_cases)
  case (Call op)
  show ?thesis unfolding Call(2) using wf by (rule well_formed_Call)
next
  case (Handoff p op d)
  show ?thesis unfolding Handoff(5) using wf Handoff(2,3,4) by (rule well_formed_Handoff)
next
  case (Timeout p op d)
  show ?thesis unfolding Timeout(5) using wf Timeout(2,3) by (rule well_formed_Timeout)
next
  case (Reply p e h op)
  show ?thesis unfolding Reply(5)
    using well_formed_Reply [OF wf Reply(2,3,4)] by (rule conjunct2)
next
  case Resume
  show ?thesis unfolding Resume(3) using wf Resume(2) by (rule well_formed_Resume)
next
  case (Advance d)
  show ?thesis unfolding Advance(2) using wf by (rule well_formed_Advance)
qed

lemma well_formed_run:
  "well_formed q \<Longrightarrow> run t q evs = Some q' \<Longrightarrow> well_formed q'"
  by (induction evs arbitrary: q) (auto split: option.splits dest: well_formed_step)

lemma well_formed_reachable:
  "run t (NewBlockingOpQueue start) evs = Some q \<Longrightarrow> well_formed q"
  using well_formed_New by (rule well_formed_run)


lemma run_snoc:
  "run t q (evs @ [ev]) = (case run t q evs of None \<Rightarrow> None | Some q' \<Rightarrow> step t q' ev)"
  by (simp add: run_append split: option.splits)

subsection \<open>A call that timed out\<close>

lemma Timeout_unobserved:
  assumes wf: "well_formed q" and st: "step t q (Timeout p) = Some q'"
  shows "timed_out_unobserved q' p"
  using st
proof (cases rule: step_cases)
  case (Timeout p' op d)
  then have eq: "p' = p" by simp
  have "p \<notin> observed q"
    using wf Timeout(3) eq by (simp add: well_formed_def AtSelect_unobserved)
  then show ?thesis
    unfolding Timeout(5) eq using Timeout(2) eq
    by (simp add: timed_out_unobserved_def observed_def)
qed simp_all

lemma timed_out_unobserved_step:
  assumes to: "timed_out_unobserved q p" and st: "step t q ev = Some q'"
  shows "timed_out_unobserved q' p"
proof -
  from to obtain op where p: "p < length (calls q)" and un: "p \<notin> observed q"
    and ret: "calls q ! p = Returned op (Some ErrDeadlineExceeded)"
    by (auto simp: timed_out_unobserved_def)
  from st show ?thesis
  proof (cases rule: step_cases)
    case (Call op')
    show ?thesis unfolding Call(2) using p un ret
      by (simp add: timed_out_unobserved_def observed_def nth_append)
  next
    case (Handoff p' op' d)
    with ret have "p' \<noteq> p" by auto
    then show ?thesis unfolding Handoff(5) using p un ret
      by (simp add: timed_out_unobserved_def observed_def)
  next
    case (Timeout p' op' d)
    with ret have "p' \<noteq> p" by auto
    then show ?thesis unfolding Timeout(5) using p un ret
      by (simp add: timed_out_unobserved_def observed_def)
  next
    case (Reply p' e h op')
    with ret have "p' \<noteq> p" by auto
    then show ?thesis unfolding Reply(5) using p un ret
      by (simp add: timed_out_unobserved_def observed_def)
  next
    case Resume
    show ?thesis unfolding Resume(3) using p un ret
      by (simp add: timed_out_unobserved_def observed_def)
  next
    case (Advance d)
    show ?thesis unfolding Advance(2) using p un ret
      by (simp add: timed_out_unobserved_def observed_def)
  qed
qed

lemma timed_out_unobserved_run:
  "timed_out_unobserved q p \<Longrightarrow> run t q evs = Some q' \<Longrightarrow> timed_out_unobserved q' p"
  by (induction evs arbitrary: q) (auto split: option.splits dest: timed_out_unobserved_step)

lemma Timeout_in_run:
  assumes "run t (NewBlockingOpQueue start) evs = Some q" and "Timeout p \<in> set evs"
  shows "timed_out_unobserved q p"
proof -
  from assms(2) obtain ys zs where evs: "evs = ys @ Timeout p # zs"
    by (auto dest: split_list)
  from assms(1) obtain q1 q2 where r1: "run t (NewBlockingOpQueue start) ys = Some q1"
    and st: "step t q1 (Timeout p) = Some q2" and r2: "run t q2 zs = Some q"
    unfolding evs by (auto simp: run_append split: option.splits)
  from r1 have "well_formed q1" by (rule well_formed_reachable)
  then have "timed_out_unobserved q2 p" using st by (rule Timeout_unobserved)
  then show ?thesis using r2 by (rule timed_out_unobserved_run)
qed

theorem timed_out_call_never_observed:
  assumes "run t (NewBlockingOpQueue start) (evs @ later) = Some q"
    and "Timeout p \<in> set evs"
  shows "p < length (calls q) \<and> (\<exists>op. calls q ! p = Returned op (Some ErrDeadlineExceeded))
         \<and> p \<notin> observed q"
proof -
  from assms(2) have "Timeout p \<in> set (evs @ later)" by simp
  with assms(1) have "timed_out_unobserved q p" by (rule Timeout_in_run)
  then show ?thesis by (auto simp: timed_out_unobserved_def)
qed

theorem returned_sentinel_counterexample:
  "map_option calls (run 1 (NewBlockingOpQueue 0)
      [Call \<lparr>Commands = [''abc-0'']\<rparr>, Resume, Handoff 0, Reply 0 (Some ErrDeadlineExceeded)])
     = Some [Returned \<lparr>Commands = [''abc-0'']\<rparr> (Some ErrDeadlineExceeded)]
   \<and> map_option received (run 1 (NewBlockingOpQueue 0)
      [Call \<lparr>Commands = [''abc-0'']\<rparr>, Resume, Handoff 0, Reply 0 (Some ErrDeadlineExceeded)])
     = Some [(0, \<lparr>Commands = [''abc-0'']\<rparr>)]"
  by (simp add: NewBlockingOpQueue_def)

theorem at_most_one_in_flight:
  assumes "run t (NewBlockingOpQueue start) evs = Some q"
  shows "length (received q) = length (replies q) \<or> length (received q) = Suc (length (replies q))"
proof -
  from assms have "well_formed q" by (rule well_formed_reachable)
  then have "holding_last q" by (simp add: well_formed_def)
  then show ?thesis by (cases "consumer q") (simp_all add: holding_last_def)
qed

theorem Enqueue_returns_reply:
  assumes "run t (NewBlockingOpQueue start) evs = Some q" and "k < length (replies q)"
  shows "k < length (received q) \<and> fst (received q ! k) < length (calls q) \<and>
         calls q ! fst (received q ! k) = Returned (snd (received q ! k)) (replies q ! k)"
proof -
  from assms(1) have wf: "well_formed q" by (rule well_formed_reachable)
  then have d: "k < length (received q) \<and>
      calls q ! fst (received q ! k) = Returned (snd (received q ! k)) (replies q ! k)"
    using assms(2) by (simp add: well_formed_def replies_delivered_def)
  then have "received q ! k \<in> set (received q)" by simp
  then have "fst (received q ! k) < length (calls q)"
    using wf by (simp add: well_formed_def handed_off_once_def)
  with d show ?thesis by simp
qed


subsection \<open>All calls returned nil\<close>

lemma all_nil_received:
  assumes wf: "well_formed q"
    and nil: "\<forall>c \<in> set (calls q). \<exists>op. c = Returned op None"
  shows "mset (map snd (received q)) = mset (map op_of (calls q))"
proof -
  let ?n = "length (calls q)"
  let ?f = "\<lambda>p. op_of (calls q ! p)"
  from wf have ho: "handed_off_once q" and ro: "replied_observed q"
    by (simp_all add: well_formed_def)
  have sub: "set (map fst (received q)) \<subseteq> {0..<?n}"
    using ho by (auto simp: handed_off_once_def)
  have sup: "{0..<?n} \<subseteq> set (map fst (received q))"
  proof
    fix p assume "p \<in> {0..<?n}"
    then have p: "p < ?n" by simp
    then have "calls q ! p \<in> set (calls q)" by simp
    with nil obtain op where "calls q ! p = Returned op None" by auto
    with ro p have "p \<in> observed q" by (simp add: replied_observed_def)
    then show "p \<in> set (map fst (received q))" by (simp add: observed_def)
  qed
  have "distinct (map fst (received q))" using ho by (simp add: handed_off_once_def)
  moreover have "set (map fst (received q)) = set [0..<?n]" using sub sup by auto
  ultimately have ms: "mset (map fst (received q)) = mset [0..<?n]"
    by (metis set_eq_iff_mset_eq_distinct distinct_upt)
  have "map snd (received q) = map ?f (map fst (received q))"
    using ho by (simp add: handed_off_once_def)
  then have "mset (map snd (received q)) = image_mset ?f (mset (map fst (received q)))"
    by (simp only: mset_map)
  also have "\<dots> = image_mset ?f (mset [0..<?n])" by (simp only: ms)
  also have "\<dots> = mset (map ?f [0..<?n])" by (simp only: mset_map)
  also have "map ?f [0..<?n] = map op_of (map (nth (calls q)) [0..<?n])" by simp
  also have "map (nth (calls q)) [0..<?n] = calls q" by (rule map_nth)
  finally show ?thesis .
qed

theorem successful_enqueues_observed_once:
  assumes "run t (NewBlockingOpQueue start) evs = Some q"
    and "\<forall>c \<in> set (calls q). \<exists>op. c = Returned op None"
  shows "mset (map snd (received q)) = mset (map op_of (calls q))
         \<and> distinct (map fst (received q)) \<and> length (received q) = length (calls q)"
proof -
  from assms(1) have wf: "well_formed q" by (rule well_formed_reachable)
  then have ms: "mset (map snd (received q)) = mset (map op_of (calls q))"
    using assms(2) by (rule all_nil_received)
  then have "size (mset (map snd (received q))) = size (mset (map op_of (calls q)))"
    by simp
  then have "length (received q) = length (calls q)" by simp
  moreover have "distinct (map fst (received q))"
    using wf by (simp add: well_formed_def handed_off_once_def)
  ultimately show ?thesis using ms by simp
qed

subsection \<open>A call whose timer fires while it waits\<close>

lemma AtSelect_step:
  assumes p: "p < length (calls q)" and at: "calls q ! p = AtSelect op d"
    and st: "step t q ev = Some q'" and nh: "ev \<noteq> Handoff p" and nt: "ev \<noteq> Timeout p"
  shows "p < length (calls q') \<and> calls q' ! p = AtSelect op d"
  using st
proof (cases rule: step_cases)
  case (Call op')
  show ?thesis unfolding Call(2) using p at by (simp add: nth_append)
next
  case (Handoff p' op' d')
  with nh have "p' \<noteq> p" by simp
  then show ?thesis unfolding Handoff(5) using p at by simp
next
  case (Timeout p' op' d')
  with nt have "p' \<noteq> p" by simp
  then show ?thesis unfolding Timeout(5) using p at by simp
next
  case (Reply p' e h op')
  with at have "p' \<noteq> p" by auto
  then show ?thesis unfolding Reply(5) using p at by simp
next
  case Resume
  show ?thesis unfolding Resume(3) using p at by simp
next
  case (Advance d')
  show ?thesis unfolding Advance(2) using p at by simp
qed

lemma AtSelect_run:
  "p < length (calls q) \<Longrightarrow> calls q ! p = AtSelect op d \<Longrightarrow> run t q evs = Some q' \<Longrightarrow>
   Handoff p \<notin> set evs \<Longrightarrow> Timeout p \<notin> set evs \<Longrightarrow>
   p < length (calls q') \<and> calls q' ! p = AtSelect op d"
proof (induction evs arbitrary: q)
  case Nil
  then show ?case by simp
next
  case (Cons ev evs)
  from Cons.prems(3) obtain q1 where st: "step t q ev = Some q1" and r: "run t q1 evs = Some q'"
    by (auto split: option.splits)
  from Cons.prems(4,5) have "ev \<noteq> Handoff p" and "ev \<noteq> Timeout p" by auto
  with Cons.prems(1,2) st have "p < length (calls q1) \<and> calls q1 ! p = AtSelect op d"
    by (rule AtSelect_step)
  then have a: "p < length (calls q1)" and b: "calls q1 ! p = AtSelect op d" by simp_all
  from Cons.prems(4,5) have c: "Handoff p \<notin> set evs" and d: "Timeout p \<notin> set evs" by auto
  from a b r c d show ?case by (rule Cons.IH)
qed

theorem Enqueue_deadline_exceeded:
  assumes "step t q (Call op) = Some q1"
    and "run t q1 evs = Some q2"
    and "Handoff (length (calls q)) \<notin> set evs" and "Timeout (length (calls q)) \<notin> set evs"
    and "now q1 + t \<le> now q2"
    and "consumer q2 \<noteq> Receiving"
  shows "step t q2 (Handoff (length (calls q))) = None
    \<and> step t q2 (Timeout (length (calls q)))
        = Some (q2\<lparr>calls := (calls q2)[length (calls q) := Returned op (Some ErrDeadlineExceeded)]\<rparr>)
    \<and> Error ErrDeadlineExceeded = ''enqueueing deadline exceeded''
    \<and> IsDeadlineExceeded ErrDeadlineExceeded"
proof -
  let ?p = "length (calls q)"
  from assms(1) have q1: "q1 = q\<lparr>calls := calls q @ [AtSelect op (now q + t)]\<rparr>" by simp
  then have "?p < length (calls q1)" and "calls q1 ! ?p = AtSelect op (now q1 + t)"
    by simp_all
  then have at: "?p < length (calls q2) \<and> calls q2 ! ?p = AtSelect op (now q1 + t)"
    using assms(2,3,4) by (rule AtSelect_run)
  then show ?thesis using assms(5,6) by (simp add: IsDeadlineExceeded_def)
qed

end
